theory Spec2Isabelle
  imports Main "HOL-Library.Word"
begin

section \<open>The Fibonacci fixture \<open>fibonacci.c\<close>\<close>

text \<open>
  A shallow embedding of \<open>pysys-examples/fibonacci/utilities/src/fibonacci.c\<close> on an
  LP64 platform: \<open>int\<close> is a 32-bit word, \<open>long\<close> and \<open>size_t\<close> are 64-bit words whose
  addition wraps around. The effects of the program (stores into the buffer, writes to
  the two streams) are recorded in order in a trace; an invalid memory access, which the
  C program does not check for, ends the run with a fault.
\<close>

subsection \<open>Machine integers\<close>

type_synonym c_int = "32 word"
type_synonym c_long = "64 word"
type_synonym c_size_t = "64 word"

definition sizeof_long :: c_size_t where
  "sizeof_long = 8"

definition PTRDIFF_MAX :: nat where
  "PTRDIFF_MAX = 2 ^ 63 - 1"

subsection \<open>Faults, events and the machine state\<close>

datatype fault =
    AtoiRange
  | NullString
  | NullDeref
  | OutOfBoundsWrite int
  | OutOfBoundsRead int
  | UninitRead nat

datatype event =
    Store nat c_long
  | Stdout string
  | Stderr string

record block =
  nelem :: nat
  cells :: "nat \<rightharpoonup> c_long"

record machine =
  fib :: "block option"
  trace :: "event list"

record outcome =
  events :: "event list"
  status :: c_int

subsection \<open>The C library functions the program calls\<close>

text \<open>
  The C library is not part of the repository; its functions follow ISO C.
  \<open>atoi\<close> skips white space, reads an optional sign and the longest run of decimal
  digits, and is undefined when the value does not fit an \<open>int\<close>.
\<close>

definition newline :: char where
  "newline = CHR 0x0A"

definition isspace :: "char \<Rightarrow> bool" where
  "isspace c = (c \<in> set [CHR 0x20, CHR 0x09, CHR 0x0A, CHR 0x0B, CHR 0x0C, CHR 0x0D])"

definition isdigit :: "char \<Rightarrow> bool" where
  "isdigit c = (48 \<le> (of_char c :: nat) \<and> (of_char c :: nat) \<le> 57)"

definition digit_val :: "char \<Rightarrow> nat" where
  "digit_val c = of_char c - 48"

definition digit_char :: "nat \<Rightarrow> char" where
  "digit_char d = char_of (48 + d)"

fun strtol_digits :: "nat \<Rightarrow> string \<Rightarrow> nat" where
  "strtol_digits acc [] = acc"
| "strtol_digits acc (c # cs) =
     (if isdigit c then strtol_digits (10 * acc + digit_val c) cs else acc)"

definition strtol_signed :: "string \<Rightarrow> int" where
  "strtol_signed s =
     (case s of
        [] \<Rightarrow> 0
      | c # cs \<Rightarrow>
          if c = CHR ''-'' then - int (strtol_digits 0 cs)
          else if c = CHR ''+'' then int (strtol_digits 0 cs)
          else int (strtol_digits 0 s))"

definition atoi :: "string \<Rightarrow> fault + c_int" where
  "atoi s =
     (let v = strtol_signed (dropWhile isspace s)
      in if - (2 ^ 31) \<le> v \<and> v < 2 ^ 31 then Inr (word_of_int v) else Inl AtoiRange)"

text \<open>
  \<open>malloc\<close> returns a fresh block of uninitialised cells, or the null pointer when
  the request exceeds what the allocator has left (\<open>avail\<close> bytes) or what any object
  may occupy.
\<close>

definition malloc :: "nat \<Rightarrow> nat \<Rightarrow> block option" where
  "malloc avail n =
     (if n \<le> avail \<and> n \<le> PTRDIFF_MAX
      then Some \<lparr>nelem = n div unat sizeof_long, cells = Map.empty\<rparr>
      else None)"

text \<open>
  The conversions of \<open>fprintf\<close>: \<open>%lu\<close> prints its argument as an unsigned 64-bit
  number in decimal, \<open>%d\<close> prints a signed \<open>int\<close>.
\<close>

function utoa :: "nat \<Rightarrow> string" where
  "utoa n = (if n < 10 then [digit_char n] else utoa (n div 10) @ [digit_char (n mod 10)])"
  by pat_completeness auto
termination
  by (relation "measure id") auto

declare utoa.simps [simp del]

definition printf_lu :: "c_long \<Rightarrow> string" where
  "printf_lu v = utoa (unat v)"

definition printf_d :: "c_int \<Rightarrow> string" where
  "printf_d v = (if sint v < 0 then CHR ''-'' # utoa (nat (- sint v)) else utoa (nat (sint v)))"

subsection \<open>Memory accesses through \<open>fib\<close>\<close>

definition store :: "machine \<Rightarrow> c_long \<Rightarrow> c_long \<Rightarrow> fault + machine" where
  "store s i v =
     (case fib s of
        None \<Rightarrow> Inl NullDeref
      | Some b \<Rightarrow>
          if 0 \<le> sint i \<and> nat (sint i) < nelem b
          then Inr (s\<lparr>fib := Some (b\<lparr>cells := (cells b)(nat (sint i) \<mapsto> v)\<rparr>),
                      trace := trace s @ [Store (nat (sint i)) v]\<rparr>)
          else Inl (OutOfBoundsWrite (sint i)))"

definition load :: "machine \<Rightarrow> c_long \<Rightarrow> fault + c_long" where
  "load s i =
     (case fib s of
        None \<Rightarrow> Inl NullDeref
      | Some b \<Rightarrow>
          if 0 \<le> sint i \<and> nat (sint i) < nelem b
          then (case cells b (nat (sint i)) of
                  None \<Rightarrow> Inl (UninitRead (nat (sint i)))
                | Some v \<Rightarrow> Inr v)
          else Inl (OutOfBoundsRead (sint i)))"

definition emit :: "machine \<Rightarrow> event \<Rightarrow> machine" where
  "emit s e = s\<lparr>trace := trace s @ [e]\<rparr>"

subsection \<open>The program\<close>

text \<open>
  \<open>main\<close> follows the source statement by statement; \<open>argc\<close> is the length of
  \<open>argv\<close>, and \<open>avail\<close> is the memory the allocator can still hand out. The progress
  line passes the \<open>long\<close> index to \<open>%d\<close>, which reads an \<open>int\<close>: the low 32 bits of the
  index. The sum \<open>fib[i-1] + fib[i-2]\<close> is two's complement addition on 64 bits.
\<close>

definition calculating :: "c_long \<Rightarrow> string" where
  "calculating i = ''Calculating index '' @ printf_d (ucast i) @ [newline]"

definition usage :: "string \<Rightarrow> string" where
  "usage prog = ''Usage: '' @ prog @ '' <index>'' @ [newline]"

function fill_loop :: "c_int \<Rightarrow> c_long \<Rightarrow> machine \<Rightarrow> fault + machine" where
  "fill_loop max_index i s =
     (if sint i < sint max_index then
        (let s1 = emit s (Stderr (calculating i)) in
         case load s1 (i - 1) of
           Inl e \<Rightarrow> Inl e
         | Inr a \<Rightarrow>
             (case load s1 (i - 2) of
                Inl e \<Rightarrow> Inl e
              | Inr b \<Rightarrow>
                  (case store s1 i (a + b) of
                     Inl e \<Rightarrow> Inl e
                   | Inr s2 \<Rightarrow> fill_loop max_index (i + 1) s2)))
      else Inr s)"
  by pat_completeness auto
termination
  apply (relation "measure (\<lambda>(m, i, s). nat (sint m - sint i))")
   apply simp
  subgoal for max_index i
    using sint_lt [of max_index] sint_ge [of i]
    by (simp add: sint_word_ariths signed_take_bit_int_eq_self)
  done

declare fill_loop.simps [simp del]

function print_loop :: "c_int \<Rightarrow> c_long \<Rightarrow> machine \<Rightarrow> fault + machine" where
  "print_loop max_index i s =
     (if sint i < sint max_index then
        (case load s i of
           Inl e \<Rightarrow> Inl e
         | Inr v \<Rightarrow> print_loop max_index (i + 1) (emit s (Stdout (printf_lu v @ [newline]))))
      else Inr s)"
  by pat_completeness auto
termination
  apply (relation "measure (\<lambda>(m, i, s). nat (sint m - sint i))")
   apply simp
  subgoal for max_index i
    using sint_lt [of max_index] sint_ge [of i]
    by (simp add: sint_word_ariths signed_take_bit_int_eq_self)
  done

declare print_loop.simps [simp del]

definition main :: "nat \<Rightarrow> string list \<Rightarrow> fault + outcome" where
  "main avail argv =
     (if length argv = 2 then
        (case atoi (argv ! 1) of
           Inl e \<Rightarrow> Inl e
         | Inr max_index \<Rightarrow>
             (let s0 = \<lparr>fib = malloc avail (unat (scast max_index * sizeof_long)),
                        trace = []\<rparr>
              in case store s0 0 0 of
                   Inl e \<Rightarrow> Inl e
                 | Inr s1 \<Rightarrow>
                     (case store s1 1 1 of
                        Inl e \<Rightarrow> Inl e
                      | Inr s2 \<Rightarrow>
                          (case fill_loop max_index 2 s2 of
                             Inl e \<Rightarrow> Inl e
                           | Inr s3 \<Rightarrow>
                               (case print_loop max_index 0 s3 of
                                  Inl e \<Rightarrow> Inl e
                                | Inr s4 \<Rightarrow> Inr \<lparr>events = trace s4, status = 0\<rparr>)))))
      else
        (case argv of
           [] \<Rightarrow> Inl NullString
         | prog # rest \<Rightarrow> Inr \<lparr>events = [Stderr (usage prog)], status = 0\<rparr>))"

subsection \<open>Observations on a run\<close>

text \<open>
  What an observer sees of a run: the bytes written to each stream, the stores made
  into the buffer, the stream contents cut into newline-terminated lines, and the
  number that a line of digits denotes.
\<close>

fun stdout_of :: "event list \<Rightarrow> string" where
  "stdout_of [] = []"
| "stdout_of (Stdout t # es) = t @ stdout_of es"
| "stdout_of (Stderr t # es) = stdout_of es"
| "stdout_of (Store k v # es) = stdout_of es"

fun stderr_of :: "event list \<Rightarrow> string" where
  "stderr_of [] = []"
| "stderr_of (Stderr t # es) = t @ stderr_of es"
| "stderr_of (Stdout t # es) = stderr_of es"
| "stderr_of (Store k v # es) = stderr_of es"

fun stores_of :: "event list \<Rightarrow> (nat \<times> c_long) list" where
  "stores_of [] = []"
| "stores_of (Store k v # es) = (k, v) # stores_of es"
| "stores_of (Stdout t # es) = stores_of es"
| "stores_of (Stderr t # es) = stores_of es"

fun split_lines :: "string \<Rightarrow> string \<Rightarrow> string list" where
  "split_lines cur [] = (if cur = [] then [] else [cur])"
| "split_lines cur (c # cs) =
     (if c = newline then cur # split_lines [] cs else split_lines (cur @ [c]) cs)"

definition lines_of :: "string \<Rightarrow> string list" where
  "lines_of t = split_lines [] t"

definition atou :: "string \<Rightarrow> nat" where
  "atou t = strtol_digits 0 t"

subsection \<open>The Fibonacci numbers and the expected trace\<close>

text \<open>
  The definitions of this subsection are not part of the program: they are the
  mathematical Fibonacci numbers and the trace that a run for \<open>n \<ge> 2\<close> elements is
  shown to produce, used to state and prove the results below.
\<close>

fun fibonacci :: "nat \<Rightarrow> nat" where
  "fibonacci 0 = 0"
| "fibonacci (Suc 0) = 1"
| "fibonacci (Suc (Suc n)) = fibonacci (Suc n) + fibonacci n"

text \<open>An iterative form, for computing single Fibonacci numbers.\<close>

fun fib_iter :: "nat \<Rightarrow> nat \<Rightarrow> nat \<Rightarrow> nat" where
  "fib_iter 0 a b = a"
| "fib_iter (Suc n) a b = fib_iter n b (a + b)"

definition fib_word :: "nat \<Rightarrow> c_long" where
  "fib_word k = word_of_nat (fibonacci k)"

definition progress_line :: "nat \<Rightarrow> string" where
  "progress_line k = ''Calculating index '' @ utoa k @ [newline]"

definition value_line :: "nat \<Rightarrow> string" where
  "value_line k = utoa (fibonacci k mod 2 ^ 64) @ [newline]"

definition fill_events :: "nat \<Rightarrow> nat \<Rightarrow> event list" where
  "fill_events k n =
     concat (map (\<lambda>j. [Stderr (progress_line j), Store j (fib_word j)]) [k..<n])"

definition print_events :: "nat \<Rightarrow> nat \<Rightarrow> event list" where
  "print_events k n = map (\<lambda>j. Stdout (value_line j)) [k..<n]"

definition run_events :: "nat \<Rightarrow> event list" where
  "run_events n = [Store 0 0, Store 1 1] @ fill_events 2 n @ print_events 0 n"

section \<open>Auxiliary facts\<close>

subsection \<open>Indices and sizes\<close>

lemma sint_of_nat_long: "k < 2 ^ 63 \<Longrightarrow> sint (word_of_nat k :: c_long) = int k"
  by (simp add: signed_of_nat signed_take_bit_int_eq_self)

lemma sint_of_nat_int: "k < 2 ^ 31 \<Longrightarrow> sint (word_of_nat k :: c_int) = int k"
  by (simp add: signed_of_nat signed_take_bit_int_eq_self)

lemma ucast_long_int:
  "k < 2 ^ 64 \<Longrightarrow> (ucast (word_of_nat k :: c_long) :: c_int) = word_of_nat k"
proof -
  assume k: "k < 2 ^ 64"
  have "uint (word_of_nat k :: c_long) = int k"
    using k by (simp add: uint_nat unat_of_nat)
  then show ?thesis by (simp add: ucast_eq)
qed

lemma unat_fib_word: "unat (fib_word k) = fibonacci k mod 2 ^ 64"
  by (simp add: fib_word_def unat_of_nat)

lemma fib_word_rec: "2 \<le> k \<Longrightarrow> fib_word k = fib_word (k - 1) + fib_word (k - 2)"
proof -
  assume "2 \<le> k"
  then obtain j where k: "k = Suc (Suc j)"
    by (metis Suc_le_D numeral_2_eq_2 Suc_le_mono)
  show ?thesis by (simp add: k fib_word_def)
qed

lemma index_bound: "sint (m :: c_int) = int n \<Longrightarrow> n < 2 ^ 31"
  using sint_lt [of m] by simp

lemma calculating_progress:
  "k < 2 ^ 31 \<Longrightarrow> calculating (word_of_nat k) = progress_line k"
  by (simp add: calculating_def progress_line_def printf_d_def ucast_long_int
      sint_of_nat_int)

lemma printf_lu_fib_word: "printf_lu (fib_word k) @ [newline] = value_line k"
  by (simp add: printf_lu_def value_line_def unat_fib_word)

lemma load_hit:
  "fib s = Some b \<Longrightarrow> j < nelem b \<Longrightarrow> j < 2 ^ 31 \<Longrightarrow> cells b j = Some v \<Longrightarrow>
   load s (word_of_nat j) = Inr v"
  by (simp add: load_def sint_of_nat_long)

lemma store_hit:
  "fib s = Some b \<Longrightarrow> j < nelem b \<Longrightarrow> j < 2 ^ 31 \<Longrightarrow>
   store s (word_of_nat j) v =
     Inr (s\<lparr>fib := Some (b\<lparr>cells := (cells b)(j \<mapsto> v)\<rparr>), trace := trace s @ [Store j v]\<rparr>)"
  by (simp add: store_def sint_of_nat_long)

lemma fill_events_empty: "fill_events n n = []"
  by (simp add: fill_events_def)

lemma fill_events_step:
  "k < n \<Longrightarrow> fill_events k n =
     Stderr (progress_line k) # Store k (fib_word k) # fill_events (Suc k) n"
  by (simp add: fill_events_def upt_conv_Cons)

lemma print_events_empty: "print_events n n = []"
  by (simp add: print_events_def)

lemma print_events_step:
  "k < n \<Longrightarrow> print_events k n = Stdout (value_line k) # print_events (Suc k) n"
  by (simp add: print_events_def upt_conv_Cons)

lemma fill_loop_run:
  assumes m: "sint m = int n"
  shows "fib s = Some b \<Longrightarrow> nelem b = n \<Longrightarrow> 2 \<le> k \<Longrightarrow> k \<le> n \<Longrightarrow>
         \<forall>j<k. cells b j = Some (fib_word j) \<Longrightarrow>
         \<exists>s' b'. fill_loop m (word_of_nat k) s = Inr s' \<and> fib s' = Some b' \<and>
                 nelem b' = n \<and> (\<forall>j<n. cells b' j = Some (fib_word j)) \<and>
                 trace s' = trace s @ fill_events k n"
proof (induction "n - k" arbitrary: k s b)
  case 0
  then have kn: "k = n" by simp
  have n: "n < 2 ^ 31" using m by (rule index_bound)
  have "fill_loop m (word_of_nat k) s = Inr s"
    using n by (subst fill_loop.simps) (simp add: kn m sint_of_nat_long)
  with 0 kn show ?case by (simp add: fill_events_empty)
next
  case (Suc d)
  then have kn: "k < n" by simp
  have n: "n < 2 ^ 31" using m by (rule index_bound)
  have k: "k < 2 ^ 31" using kn n by simp
  define s1 where "s1 = emit s (Stderr (calculating (word_of_nat k)))"
  have s1: "fib s1 = Some b" "trace s1 = trace s @ [Stderr (progress_line k)]"
    using Suc.prems(1) k by (simp_all add: s1_def emit_def calculating_progress)
  have i1: "(word_of_nat k :: c_long) - 1 = word_of_nat (k - 1)"
    using Suc.prems(3) by simp
  have i2: "(word_of_nat k :: c_long) - 2 = word_of_nat (k - 2)"
    using Suc.prems(3) by simp
  have i3: "(word_of_nat k :: c_long) + 1 = word_of_nat (Suc k)"
    by simp
  have l1: "load s1 (word_of_nat k - 1) = Inr (fib_word (k - 1))"
    unfolding i1 using s1(1) Suc.prems kn k by (intro load_hit) auto
  have l2: "load s1 (word_of_nat k - 2) = Inr (fib_word (k - 2))"
    unfolding i2 using s1(1) Suc.prems kn k by (intro load_hit) auto
  define b2 where "b2 = b\<lparr>cells := (cells b)(k \<mapsto> fib_word k)\<rparr>"
  define s2 where "s2 = s1\<lparr>fib := Some b2, trace := trace s1 @ [Store k (fib_word k)]\<rparr>"
  have fr: "fib_word (k - Suc 0) + fib_word (k - 2) = fib_word k"
    using fib_word_rec [OF Suc.prems(3)] by simp
  have st: "store s1 (word_of_nat k) (fib_word (k - Suc 0) + fib_word (k - 2)) = Inr s2"
    unfolding fr using s1(1) Suc.prems(2) kn k
    by (simp add: store_hit s2_def b2_def)
  have step: "fill_loop m (word_of_nat k) s = fill_loop m (word_of_nat (Suc k)) s2"
    using kn k
    by (subst fill_loop.simps)
       (simp add: m sint_of_nat_long s1_def [symmetric] l1 l2 st i3 del: of_nat_Suc)
  have "\<exists>s' b'. fill_loop m (word_of_nat (Suc k)) s2 = Inr s' \<and> fib s' = Some b' \<and>
                 nelem b' = n \<and> (\<forall>j<n. cells b' j = Some (fib_word j)) \<and>
                 trace s' = trace s2 @ fill_events (Suc k) n"
  proof (rule Suc.hyps(1))
    show "d = n - Suc k" using Suc.hyps(2) by simp
    show "fib s2 = Some b2" by (simp add: s2_def)
    show "nelem b2 = n" using Suc.prems(2) by (simp add: b2_def)
    show "2 \<le> Suc k" using Suc.prems(3) by simp
    show "Suc k \<le> n" using kn by simp
    show "\<forall>j<Suc k. cells b2 j = Some (fib_word j)"
      using Suc.prems(5) by (simp add: b2_def less_Suc_eq)
  qed
  then show ?case
    using kn by (simp add: step s2_def s1(2) fill_events_step)
qed

lemma print_loop_run:
  assumes m: "sint m = int n"
  shows "fib s = Some b \<Longrightarrow> nelem b = n \<Longrightarrow> k \<le> n \<Longrightarrow>
         \<forall>j<n. cells b j = Some (fib_word j) \<Longrightarrow>
         \<exists>s'. print_loop m (word_of_nat k) s = Inr s' \<and>
               trace s' = trace s @ print_events k n"
proof (induction "n - k" arbitrary: k s)
  case 0
  then have kn: "k = n" by simp
  have n: "n < 2 ^ 31" using m by (rule index_bound)
  have "print_loop m (word_of_nat k) s = Inr s"
    using n by (subst print_loop.simps) (simp add: kn m sint_of_nat_long)
  then show ?case by (simp add: kn print_events_empty)
next
  case (Suc d)
  then have kn: "k < n" by simp
  have n: "n < 2 ^ 31" using m by (rule index_bound)
  have k: "k < 2 ^ 31" using kn n by simp
  define s1 where "s1 = emit s (Stdout (value_line k))"
  have s1: "fib s1 = Some b" "trace s1 = trace s @ [Stdout (value_line k)]"
    using Suc.prems(1) by (simp_all add: s1_def emit_def)
  have i3: "(word_of_nat k :: c_long) + 1 = word_of_nat (Suc k)"
    by simp
  have ld: "load s (word_of_nat k) = Inr (fib_word k)"
    using Suc.prems kn k by (intro load_hit) auto
  have step: "print_loop m (word_of_nat k) s = print_loop m (word_of_nat (Suc k)) s1"
    using kn k
    by (subst print_loop.simps)
       (simp add: m sint_of_nat_long ld printf_lu_fib_word s1_def i3 del: of_nat_Suc)
  have "\<exists>s'. print_loop m (word_of_nat (Suc k)) s1 = Inr s' \<and>
             trace s' = trace s1 @ print_events (Suc k) n"
  proof (rule Suc.hyps(1))
    show "d = n - Suc k" using Suc.hyps(2) by simp
    show "fib s1 = Some b" by (rule s1(1))
    show "nelem b = n" by (rule Suc.prems(2))
    show "Suc k \<le> n" using kn by simp
    show "\<forall>j<n. cells b j = Some (fib_word j)" by (rule Suc.prems(4))
  qed
  then show ?case
    using kn by (simp add: step s1(2) print_events_step)
qed

subsection \<open>Allocation and the straight-line part of \<open>main\<close>\<close>

lemma scast_nonneg:
  "0 \<le> sint (m :: c_int) \<Longrightarrow> (scast m :: c_long) = word_of_nat (nat (sint m))"
proof -
  assume nn: "0 \<le> sint m"
  have "(scast m :: c_long) = word_of_int (sint m)" by (rule scast_eq)
  also have "sint m = int (nat (sint m))" using nn by simp
  also have "(word_of_int (int (nat (sint m))) :: c_long) = word_of_nat (nat (sint m))"
    by (rule of_int_of_nat_eq)
  finally show ?thesis .
qed

lemma size_nonneg:
  "0 \<le> sint (m :: c_int) \<Longrightarrow> unat (scast m * sizeof_long) = 8 * nat (sint m)"
proof -
  assume nn: "0 \<le> sint m"
  have lt: "sint m < 2 ^ 31" using sint_lt [of m] by simp
  have "(scast m :: c_long) * sizeof_long = word_of_nat (nat (sint m)) * 8"
    using nn by (simp only: scast_nonneg sizeof_long_def)
  also have "\<dots> = word_of_nat (8 * nat (sint m))" by simp
  finally have "unat ((scast m :: c_long) * sizeof_long) = (8 * nat (sint m)) mod 2 ^ 64"
    by (simp only: unat_of_nat) simp
  moreover have "8 * nat (sint m) < (2::nat) ^ 64" using nn lt by simp
  ultimately show ?thesis by simp
qed

lemma size_neg:
  "sint (m :: c_int) < 0 \<Longrightarrow> PTRDIFF_MAX < unat (scast m * sizeof_long)"
proof -
  assume neg: "sint m < 0"
  have ge: "- (2 ^ 31) \<le> sint m" using sint_ge [of m] by simp
  have "(scast m :: c_long) = word_of_int (sint m)" by (rule scast_eq)
  then have "(scast m :: c_long) * sizeof_long = word_of_int (sint m) * word_of_int 8"
    by (simp only: sizeof_long_def) simp
  also have "\<dots> = word_of_int (sint m * 8)" by (simp only: wi_hom_mult)
  finally have "uint ((scast m :: c_long) * sizeof_long) = (sint m * 8) mod 2 ^ 64"
    by (simp only: uint_word_of_int) simp
  also have "\<dots> = sint m * 8 + 2 ^ 64"
  proof -
    have "(sint m * 8) mod 2 ^ 64 = (sint m * 8 + 2 ^ 64) mod 2 ^ 64" by simp
    also have "\<dots> = sint m * 8 + 2 ^ 64"
      using neg ge by (intro mod_pos_pos_trivial) simp_all
    finally show ?thesis .
  qed
  finally show ?thesis using ge by (simp add: unat_eq_nat_uint PTRDIFF_MAX_def)
qed

lemma malloc_hit:
  "0 \<le> sint (m :: c_int) \<Longrightarrow> 8 * nat (sint m) \<le> avail \<Longrightarrow>
   malloc avail (unat (scast m * sizeof_long)) =
     Some \<lparr>nelem = nat (sint m), cells = Map.empty\<rparr>"
proof -
  assume nn: "0 \<le> sint m" and av: "8 * nat (sint m) \<le> avail"
  have "sint m < 2 ^ 31" using sint_lt [of m] by simp
  then have "8 * nat (sint m) \<le> PTRDIFF_MAX" using nn by (simp add: PTRDIFF_MAX_def)
  moreover have "unat sizeof_long = 8" by (simp add: sizeof_long_def)
  ultimately show ?thesis
    using av by (simp add: malloc_def size_nonneg [OF nn])
qed

lemma malloc_neg:
  "sint (m :: c_int) < 0 \<Longrightarrow> malloc avail (unat (scast m * sizeof_long)) = None"
  using size_neg [of m] by (simp add: malloc_def)

lemma malloc_miss:
  "0 \<le> sint (m :: c_int) \<Longrightarrow> avail < 8 * nat (sint m) \<Longrightarrow>
   malloc avail (unat (scast m * sizeof_long)) = None"
  by (simp add: malloc_def size_nonneg)

lemma malloc_Some_iff:
  "(\<exists>b. malloc avail (unat (scast (m :: c_int) * sizeof_long)) = Some b) \<longleftrightarrow>
   0 \<le> sint m \<and> 8 * nat (sint m) \<le> avail"
proof (cases "0 \<le> sint m")
  case True
  then show ?thesis
    using malloc_hit [of m avail] malloc_miss [of m avail] by (cases "8 * nat (sint m) \<le> avail") auto
next
  case False
  then show ?thesis using malloc_neg [of m avail] by simp
qed

lemma main_null:
  "atoi arg = Inr m \<Longrightarrow> malloc avail (unat (scast m * sizeof_long)) = None \<Longrightarrow>
   main avail [prog, arg] = Inl NullDeref"
  by (simp add: main_def store_def)

lemma main_atoi_range:
  "atoi arg = Inl e \<Longrightarrow> main avail [prog, arg] = Inl e"
  by (simp add: main_def)

lemma main_zero:
  "atoi arg = Inr m \<Longrightarrow> sint m = 0 \<Longrightarrow> main avail [prog, arg] = Inl (OutOfBoundsWrite 0)"
  using malloc_hit [of m avail] by (simp add: main_def store_def)

lemma main_one:
  assumes "atoi arg = Inr m" "sint m = 1" "8 \<le> avail"
  shows "main avail [prog, arg] = Inl (OutOfBoundsWrite 1)"
  using assms malloc_hit [of m avail] by (simp add: main_def store_def)

lemma main_usage:
  "length (prog # rest) \<noteq> 2 \<Longrightarrow>
   main avail (prog # rest) = Inr \<lparr>events = [Stderr (usage prog)], status = 0\<rparr>"
  by (simp add: main_def)

lemma main_run:
  assumes a: "atoi arg = Inr m" and two: "2 \<le> sint m" and av: "8 * nat (sint m) \<le> avail"
  shows "main avail [prog, arg] = Inr \<lparr>events = run_events (nat (sint m)), status = 0\<rparr>"
proof -
  define n where "n = nat (sint m)"
  have m: "sint m = int n" and n2: "2 \<le> n" using two by (simp_all add: n_def)
  have nb: "n < 2 ^ 31" using m by (rule index_bound)
  define b0 where "b0 = \<lparr>nelem = n, cells = Map.empty\<rparr>"
  define s0 where "s0 = \<lparr>fib = Some b0, trace = []\<rparr>"
  define b1 where "b1 = b0\<lparr>cells := (cells b0)(0 \<mapsto> 0)\<rparr>"
  define s1 where "s1 = s0\<lparr>fib := Some b1, trace := trace s0 @ [Store 0 0]\<rparr>"
  define b2 where "b2 = b1\<lparr>cells := (cells b1)(1 \<mapsto> 1)\<rparr>"
  define s2 where "s2 = s1\<lparr>fib := Some b2, trace := trace s1 @ [Store 1 1]\<rparr>"
  have al: "malloc avail (unat (scast m * sizeof_long)) = Some b0"
    using two av malloc_hit [of m avail] by (simp add: b0_def n_def)
  have st0: "store s0 0 0 = Inr s1"
    using store_hit [of s0 b0 0 0] n2 by (simp add: s0_def s1_def b1_def b0_def)
  have st1: "store s1 1 1 = Inr s2"
    using store_hit [of s1 b1 1 1] n2 by (simp add: s1_def s2_def b2_def b1_def b0_def)
  have inv: "\<forall>j<2. cells b2 j = Some (fib_word j)"
    by (simp add: b2_def b1_def b0_def fib_word_def less_Suc_eq numeral_2_eq_2)
  obtain s3 b3 where s3: "fill_loop m (word_of_nat 2) s2 = Inr s3" "fib s3 = Some b3"
      "nelem b3 = n" "\<forall>j<n. cells b3 j = Some (fib_word j)"
      "trace s3 = trace s2 @ fill_events 2 n"
    using fill_loop_run [OF m, of s2 b2 2] n2 inv
    by (auto simp: s2_def b2_def b1_def b0_def)
  obtain s4 where s4: "print_loop m (word_of_nat 0) s3 = Inr s4"
      "trace s4 = trace s3 @ print_events 0 n"
    using print_loop_run [OF m s3(2) s3(3), of 0] s3(4) by auto
  have tr: "trace s4 = run_events n"
    by (simp add: s4(2) s3(5) s2_def s1_def s0_def run_events_def)
  show ?thesis
    using s3(1) s4(1)
    by (simp add: main_def a al s0_def [symmetric] st0 st1 tr n_def [symmetric])
qed

subsection \<open>Decimal strings, lines and observations\<close>

lemma isdigit_digit_char: "d < 10 \<Longrightarrow> isdigit (digit_char d)"
  by (simp add: isdigit_def digit_char_def)

lemma digit_val_digit_char: "d < 10 \<Longrightarrow> digit_val (digit_char d) = d"
  by (simp add: digit_val_def digit_char_def)

lemma utoa_digits: "c \<in> set (utoa n) \<Longrightarrow> isdigit c"
proof (induction n rule: utoa.induct)
  case (1 n)
  show ?case
  proof (cases "n < 10")
    case True
    with "1.prems" show ?thesis
      by (subst (asm) utoa.simps) (simp add: isdigit_digit_char)
  next
    case False
    with "1.prems" have "c \<in> set (utoa (n div 10)) \<or> c = digit_char (n mod 10)"
      by (subst (asm) utoa.simps) auto
    then show ?thesis
      using "1.IH" False by (auto simp: isdigit_digit_char)
  qed
qed

lemma utoa_nonempty: "utoa n \<noteq> []"
  by (subst utoa.simps) simp

lemma not_isdigit_newline: "\<not> isdigit newline"
  by (simp add: isdigit_def newline_def)

lemma not_isdigit_minus: "\<not> isdigit (CHR ''-'')"
  by (simp add: isdigit_def)

lemma newline_notin_utoa: "newline \<notin> set (utoa n)"
  using utoa_digits not_isdigit_newline by blast

lemma strtol_digits_append:
  "\<forall>c\<in>set ds. isdigit c \<Longrightarrow>
   strtol_digits acc (ds @ rest) = strtol_digits (strtol_digits acc ds) rest"
  by (induction ds arbitrary: acc) simp_all

lemma strtol_digits_utoa:
  "strtol_digits acc (utoa n) = acc * 10 ^ length (utoa n) + n"
proof (induction n arbitrary: acc rule: utoa.induct)
  case (1 n)
  show ?case
  proof (cases "n < 10")
    case True
    then have "utoa n = [digit_char n]" by (subst utoa.simps) simp
    then show ?thesis
      using True by (simp add: isdigit_digit_char digit_val_digit_char)
  next
    case False
    then have u: "utoa n = utoa (n div 10) @ [digit_char (n mod 10)]"
      by (subst utoa.simps) simp
    have "strtol_digits acc (utoa n) =
          strtol_digits (strtol_digits acc (utoa (n div 10))) [digit_char (n mod 10)]"
      unfolding u using utoa_digits by (intro strtol_digits_append) blast
    also have "\<dots> = 10 * (acc * 10 ^ length (utoa (n div 10)) + n div 10) + n mod 10"
      using "1.IH" [OF False] by (simp add: isdigit_digit_char digit_val_digit_char)
    also have "\<dots> = acc * 10 ^ length (utoa n) + n"
      by (simp add: u algebra_simps)
    finally show ?thesis .
  qed
qed

lemma atou_utoa: "atou (utoa n) = n"
  by (simp add: atou_def strtol_digits_utoa)

lemma split_lines_line:
  "newline \<notin> set l \<Longrightarrow>
   split_lines cur (l @ newline # rest) = (cur @ l) # split_lines [] rest"
  by (induction l arbitrary: cur) auto

lemma lines_of_concat:
  "\<forall>l\<in>set ls. newline \<notin> set l \<Longrightarrow>
   lines_of (concat (map (\<lambda>l. l @ [newline]) ls)) = ls"
proof (induction ls)
  case Nil
  show ?case by (simp add: lines_of_def)
next
  case (Cons l ls)
  then have "split_lines [] (l @ newline # concat (map (\<lambda>l. l @ [newline]) ls)) =
             l # split_lines [] (concat (map (\<lambda>l. l @ [newline]) ls))"
    using split_lines_line [of l "[]"] by simp
  with Cons show ?case by (simp add: lines_of_def)
qed

lemma stdout_of_append: "stdout_of (xs @ ys) = stdout_of xs @ stdout_of ys"
  by (induction xs rule: stdout_of.induct) simp_all

lemma stderr_of_append: "stderr_of (xs @ ys) = stderr_of xs @ stderr_of ys"
  by (induction xs rule: stderr_of.induct) simp_all

lemma stores_of_append: "stores_of (xs @ ys) = stores_of xs @ stores_of ys"
  by (induction xs rule: stores_of.induct) simp_all

lemma fill_pairs_stderr:
  "stderr_of (concat (map (\<lambda>j. [Stderr (p j), Store j (w j)]) js)) = concat (map p js)"
  by (induction js) simp_all

lemma fill_pairs_stdout:
  "stdout_of (concat (map (\<lambda>j. [Stderr (p j), Store j (w j)]) js)) = []"
  by (induction js) simp_all

lemma fill_pairs_stores:
  "stores_of (concat (map (\<lambda>j. [Stderr (p j), Store j (w j)]) js)) = map (\<lambda>j. (j, w j)) js"
  by (induction js) simp_all

lemma print_list_stdout: "stdout_of (map (\<lambda>j. Stdout (p j)) js) = concat (map p js)"
  by (induction js) simp_all

lemma print_list_stderr: "stderr_of (map (\<lambda>j. Stdout (p j)) js) = []"
  by (induction js) simp_all

lemma print_list_stores: "stores_of (map (\<lambda>j. Stdout (p j)) js) = []"
  by (induction js) simp_all

lemma stdout_run_events: "stdout_of (run_events n) = concat (map value_line [0..<n])"
  by (simp add: run_events_def fill_events_def print_events_def stdout_of_append
      fill_pairs_stdout print_list_stdout)

lemma stderr_run_events: "stderr_of (run_events n) = concat (map progress_line [2..<n])"
  by (simp add: run_events_def fill_events_def print_events_def stderr_of_append
      fill_pairs_stderr print_list_stderr)

lemma stores_run_events:
  "2 \<le> n \<Longrightarrow> stores_of (run_events n) = map (\<lambda>j. (j, fib_word j)) [0..<n]"
proof -
  assume n: "2 \<le> n"
  have "[0..<n] = 0 # 1 # [2..<n]"
    using n by (simp add: upt_conv_Cons numeral_2_eq_2)
  then show ?thesis
    by (simp add: run_events_def fill_events_def print_events_def stores_of_append
        fill_pairs_stores print_list_stores fib_word_def)
qed

lemma lines_stdout_run_events:
  "lines_of (stdout_of (run_events n)) = map (\<lambda>j. utoa (fibonacci j mod 2 ^ 64)) [0..<n]"
proof -
  have "stdout_of (run_events n) =
        concat (map (\<lambda>l. l @ [newline]) (map (\<lambda>j. utoa (fibonacci j mod 2 ^ 64)) [0..<n]))"
    by (simp add: stdout_run_events value_line_def [abs_def] comp_def)
  then show ?thesis
    by (simp only: ) (rule lines_of_concat, simp add: newline_notin_utoa)
qed

lemma lines_stderr_run_events:
  "lines_of (stderr_of (run_events n)) =
     map (\<lambda>j. ''Calculating index '' @ utoa j) [2..<n]"
proof -
  have nl: "newline \<notin> set (''Calculating index '' @ utoa j)" for j
    using newline_notin_utoa [of j] by (simp add: newline_def)
  have "stderr_of (run_events n) =
        concat (map (\<lambda>l. l @ [newline]) (map (\<lambda>j. ''Calculating index '' @ utoa j) [2..<n]))"
    by (simp add: stderr_run_events progress_line_def [abs_def] comp_def)
  then show ?thesis
    by (simp only: ) (rule lines_of_concat, use nl in auto)
qed

subsection \<open>Concrete values\<close>

lemma uint_sint_mod: "int (unat (v :: c_long)) = sint v mod 2 ^ 64"
proof -
  have len: "(2 :: int) ^ LENGTH(64) = 2 ^ 64" by simp
  have e: "(word_of_int (sint v) :: c_long) = v" by (simp only: of_int_sint scast_id)
  have "uint (word_of_int (sint v) :: c_long) = sint v mod 2 ^ LENGTH(64)"
    by (rule uint_word_of_int)
  then have "uint v = sint v mod 2 ^ 64" unfolding e len .
  then show ?thesis by (simp only: uint_nat)
qed

lemma fibonacci_rec: "2 \<le> i \<Longrightarrow> fibonacci i = fibonacci (i - 1) + fibonacci (i - 2)"
proof -
  assume "2 \<le> i"
  then obtain j where "i = Suc (Suc j)"
    by (metis Suc_le_D numeral_2_eq_2 Suc_le_mono)
  then show ?thesis by simp
qed

lemma utoa_0: "utoa 0 = ''0''"
  by code_simp

lemma utoa_1: "utoa (Suc 0) = ''1''"
  by code_simp

lemma atoi_2: "atoi ''2'' = Inr 2"
  by (simp add: atoi_def strtol_signed_def isspace_def isdigit_def digit_val_def)

lemma atoi_5: "atoi ''5'' = Inr 5"
  by (simp add: atoi_def strtol_signed_def isspace_def isdigit_def digit_val_def)

lemma atoi_95: "atoi ''95'' = Inr 95"
  by (simp add: atoi_def strtol_signed_def isspace_def isdigit_def digit_val_def)

lemma atoi_1: "atoi ''1'' = Inr 1"
  by (simp add: atoi_def strtol_signed_def isspace_def isdigit_def digit_val_def)

lemma atoi_minus_1: "atoi ''-1'' = Inr (- 1)"
  by (simp add: atoi_def strtol_signed_def isspace_def isdigit_def digit_val_def)

subsection \<open>Which runs complete\<close>

lemma pair_list: "length argv = 2 \<Longrightarrow> argv = [argv ! 0, argv ! 1]"
  by (cases argv; cases "tl argv") auto

lemma stores_in_range:
  "2 \<le> n \<Longrightarrow> (k, v) \<in> set (stores_of (run_events n)) \<Longrightarrow> k < n"
  by (auto simp: stores_run_events)

lemma main_completes_iff:
  "(\<exists>r. main avail argv = Inr r \<and> status r = 0) \<longleftrightarrow>
     length argv = 1 \<or> 2 < length argv \<or>
     (length argv = 2 \<and>
      (\<exists>m. atoi (argv ! 1) = Inr m \<and> 2 \<le> sint m \<and> 8 * nat (sint m) \<le> avail))"
proof (cases "length argv = 2")
  case False
  show ?thesis
  proof (cases argv)
    case Nil
    then show ?thesis by (simp add: main_def)
  next
    case (Cons prog rest)
    then have "main avail argv = Inr \<lparr>events = [Stderr (usage prog)], status = 0\<rparr>"
      using False main_usage [of prog rest avail] by simp
    moreover have "length argv = 1 \<or> 2 < length argv"
      using False Cons by (cases rest) auto
    ultimately show ?thesis by auto
  qed
next
  case True
  then obtain prog arg where argv: "argv = [prog, arg]"
    using pair_list by blast
  have key: "(\<exists>r. main avail [prog, arg] = Inr r \<and> status r = 0) \<longleftrightarrow>
             (\<exists>m. atoi arg = Inr m \<and> 2 \<le> sint m \<and> 8 * nat (sint m) \<le> avail)"
  proof (cases "atoi arg")
    case (Inl e)
    then show ?thesis by (simp add: main_atoi_range)
  next
    case (Inr m)
    show ?thesis
    proof (cases "malloc avail (unat (scast m * sizeof_long))")
      case None
      have "main avail [prog, arg] = Inl NullDeref"
        using Inr None by (rule main_null)
      moreover have "\<not> (0 \<le> sint m \<and> 8 * nat (sint m) \<le> avail)"
        using None malloc_Some_iff [of avail m] by simp
      ultimately show ?thesis using Inr by auto
    next
      case (Some b)
      have ok: "0 \<le> sint m" "8 * nat (sint m) \<le> avail"
        using Some malloc_Some_iff [of avail m] by auto
      consider "sint m = 0" | "sint m = 1" | "2 \<le> sint m"
        using ok(1) by linarith
      then show ?thesis
      proof cases
        case 1
        then show ?thesis using Inr by (simp add: main_zero [OF Inr])
      next
        case 2
        then have "8 \<le> avail" using ok(2) by simp
        with 2 show ?thesis using Inr by (simp add: main_one [OF Inr])
      next
        case 3
        then show ?thesis using Inr ok(2) by (simp add: main_run [OF Inr 3 ok(2)])
      qed
    qed
  qed
  show ?thesis unfolding argv using key by simp
qed

lemma atoi_0: "atoi ''0'' = Inr 0"
  by (simp add: atoi_def strtol_signed_def isspace_def isdigit_def digit_val_def)

lemma malloc_0: "malloc 1024 (unat (scast (0 :: c_int) * sizeof_long)) =
    Some \<lparr>nelem = 0, cells = Map.empty\<rparr>"
  by (simp add: malloc_def sizeof_long_def PTRDIFF_MAX_def)

lemma malloc_1: "malloc 1024 (unat (scast (1 :: c_int) * sizeof_long)) =
    Some \<lparr>nelem = 1, cells = Map.empty\<rparr>"
  by (simp add: malloc_def sizeof_long_def PTRDIFF_MAX_def)

lemma malloc_2: "malloc 1024 (unat (scast (2 :: c_int) * sizeof_long)) =
    Some \<lparr>nelem = 2, cells = Map.empty\<rparr>"
  by (simp add: malloc_def sizeof_long_def PTRDIFF_MAX_def)

subsection \<open>Two runs past the 63rd and the 64th bit\<close>

text \<open>
  The Fibonacci number at index 93 is the first that is negative as a signed 64-bit
  number, the one at index 94 the first that does not fit 64 bits at all.
\<close>

lemma fib_iter_fibonacci:
  "fib_iter n (fibonacci k) (fibonacci (Suc k)) = fibonacci (n + k)"
proof (induction n arbitrary: k)
  case 0
  show ?case by simp
next
  case (Suc n)
  have "fib_iter (Suc n) (fibonacci k) (fibonacci (Suc k)) =
        fib_iter n (fibonacci (Suc k)) (fibonacci (Suc (Suc k)))"
    by (simp add: add.commute)
  also have "\<dots> = fibonacci (n + Suc k)" by (rule Suc.IH)
  finally show ?case by simp
qed

lemma fib_iter_numeral:
  "fib_iter (numeral v) a b = fib_iter (pred_numeral v) b (a + b)"
  by (simp add: numeral_eq_Suc)

lemma fib_iter_93: "fib_iter 93 0 1 = 12200160415121876738"
  by (simp only: fib_iter_numeral fib_iter.simps(1) pred_numeral_simps BitM.simps arith_simps
      add_0 add_0_right one_add_one numeral_plus_one one_plus_numeral add_num_simps)

lemma fib_iter_94: "fib_iter 94 0 1 = 19740274219868223167"
  by (simp only: fib_iter_numeral fib_iter.simps(1) pred_numeral_simps BitM.simps arith_simps
      add_0 add_0_right one_add_one numeral_plus_one one_plus_numeral add_num_simps)

lemma fibonacci_93: "fibonacci 93 = 12200160415121876738"
proof -
  have "fib_iter 93 (fibonacci 0) (fibonacci (Suc 0)) = fibonacci (93 + 0)"
    by (rule fib_iter_fibonacci)
  then show ?thesis by (simp only: fibonacci.simps fib_iter_93 add_0_right)
qed

lemma fibonacci_94: "fibonacci 94 = 19740274219868223167"
proof -
  have "fib_iter 94 (fibonacci 0) (fibonacci (Suc 0)) = fibonacci (94 + 0)"
    by (rule fib_iter_fibonacci)
  then show ?thesis by (simp only: fibonacci.simps fib_iter_94 add_0_right)
qed

lemma digit_char_values:
  "digit_char 0 = CHR ''0''" "digit_char (Suc 0) = CHR ''1''" "digit_char 2 = CHR ''2''"
  "digit_char 3 = CHR ''3''" "digit_char 4 = CHR ''4''" "digit_char 5 = CHR ''5''"
  "digit_char 6 = CHR ''6''" "digit_char 7 = CHR ''7''" "digit_char 8 = CHR ''8''"
  "digit_char 9 = CHR ''9''"
  by code_simp+

lemma utoa_wrapped: "utoa 1293530146158671551 = ''1293530146158671551''"
  by (simp add: utoa.simps digit_char_values)

lemma utoa_unsigned: "utoa 12200160415121876738 = ''12200160415121876738''"
  by (simp add: utoa.simps digit_char_values)

lemma wrap_at_94:
  "2 ^ 64 \<le> fibonacci 94 \<and>
   (\<exists>r. main 1024 [''fibonacci'', ''95''] = Inr r \<and>
        lines_of (stdout_of (events r)) ! 94 = ''1293530146158671551'')"
proof -
  have run: "main 1024 [''fibonacci'', ''95''] = Inr \<lparr>events = run_events 95, status = 0\<rparr>"
    using main_run [OF atoi_95, of 1024 "''fibonacci''"] by simp
  have "lines_of (stdout_of (run_events 95)) ! 94 = utoa (fibonacci (0 + 94) mod 2 ^ 64)"
    by (simp only: lines_stdout_run_events) (simp only: nth_map nth_upt length_upt, simp)
  then have "lines_of (stdout_of (run_events 95)) ! 94 = ''1293530146158671551''"
    by (simp only: add_0 fibonacci_94) (simp add: utoa_wrapped)
  moreover have "(2 :: nat) ^ 64 \<le> fibonacci 94"
    by (simp only: fibonacci_94) simp
  ultimately show ?thesis using run by simp
qed

lemma negative_at_93:
  "sint (fib_word 93) < 0 \<and>
   (\<exists>r. main 1024 [''fibonacci'', ''95''] = Inr r \<and>
        lines_of (stdout_of (events r)) ! 93 = ''12200160415121876738'')"
proof -
  have run: "main 1024 [''fibonacci'', ''95''] = Inr \<lparr>events = run_events 95, status = 0\<rparr>"
    using main_run [OF atoi_95, of 1024 "''fibonacci''"] by simp
  have "lines_of (stdout_of (run_events 95)) ! 93 = utoa (fibonacci (0 + 93) mod 2 ^ 64)"
    by (simp only: lines_stdout_run_events) (simp only: nth_map nth_upt length_upt, simp)
  then have line: "lines_of (stdout_of (run_events 95)) ! 93 = ''12200160415121876738''"
    by (simp only: add_0 fibonacci_93) (simp add: utoa_unsigned)
  have "sint (fib_word 93) < 0"
  proof (rule ccontr)
    assume "\<not> sint (fib_word 93) < 0"
    then have nn: "0 \<le> sint (fib_word 93)" by simp
    have lt: "sint (fib_word 93) < 2 ^ 63"
      using sint_lt [of "fib_word 93"] by simp
    have "int (unat (fib_word 93)) = 12200160415121876738"
      by (simp only: unat_fib_word fibonacci_93) simp
    then have "sint (fib_word 93) mod 2 ^ 64 = 12200160415121876738"
      by (simp only: uint_sint_mod)
    moreover have "sint (fib_word 93) mod 2 ^ 64 = sint (fib_word 93)"
      using nn lt by (intro mod_pos_pos_trivial) simp_all
    ultimately show False using lt by simp
  qed
  then show ?thesis using run line by simp
qed

subsection \<open>Single lines and stores of a run\<close>

lemma nth_lines_run_events:
  "k < n \<Longrightarrow> lines_of (stdout_of (run_events n)) ! k = utoa (fibonacci k mod 2 ^ 64)"
  by (simp only: lines_stdout_run_events) (simp only: nth_map nth_upt length_upt, simp)

lemma nth_stores_run_events:
  "2 \<le> n \<Longrightarrow> k < n \<Longrightarrow> stores_of (run_events n) ! k = (k, fib_word k)"
  by (simp only: stores_run_events) (simp only: nth_map nth_upt length_upt, simp)

lemma length_stores_run_events: "2 \<le> n \<Longrightarrow> length (stores_of (run_events n)) = n"
  by (simp add: stores_run_events)

lemma length_lines_run_events: "length (lines_of (stdout_of (run_events n))) = n"
  by (simp add: lines_stdout_run_events)

lemma line_is_store:
  "2 \<le> n \<Longrightarrow> k < n \<Longrightarrow>
   lines_of (stdout_of (run_events n)) ! k = utoa (unat (snd (stores_of (run_events n) ! k)))"
  by (simp add: nth_lines_run_events nth_stores_run_events unat_fib_word)

lemma utoa_no_minus: "CHR ''-'' \<notin> set (utoa n)"
  using utoa_digits [of "CHR ''-''" n] not_isdigit_minus by blast

lemma atou_utoa_unat: "int (atou (utoa (unat (v :: c_long)))) = sint v mod 2 ^ 64"
  by (simp only: atou_utoa uint_sint_mod)

lemma fibonacci_small: "fibonacci 2 = 1" "fibonacci 3 = 2" "fibonacci 4 = 3"
  by (simp_all add: eval_nat_numeral)

lemma utoa_small: "utoa 2 = ''2''" "utoa 3 = ''3''"
  by (simp_all add: utoa.simps digit_char_values)

lemma lines_at_5:
  "lines_of (stdout_of (run_events 5)) ! 2 = ''1''"
  "lines_of (stdout_of (run_events 5)) ! 3 = ''2''"
  "lines_of (stdout_of (run_events 5)) ! 4 = ''3''"
  by (simp_all add: nth_lines_run_events fibonacci_small utoa_small utoa_1)

lemma main_at_5:
  "main 1024 [''fibonacci'', ''5''] = Inr \<lparr>events = run_events 5, status = 0\<rparr>"
  using main_run [OF atoi_5, of 1024 "''fibonacci''"] by simp

lemma main_at_95:
  "main 1024 [''fibonacci'', ''95''] = Inr \<lparr>events = run_events 95, status = 0\<rparr>"
  using main_run [OF atoi_95, of 1024 "''fibonacci''"] by simp

lemma store_93: "stores_of (run_events 95) ! 93 = (93, fib_word 93)"
  by (rule nth_stores_run_events) simp_all

lemma fib_word_93_negative: "sint (fib_word 93) < 0"
  using negative_at_93 by (rule conjunct1)

lemma line_93: "lines_of (stdout_of (run_events 95)) ! 93 = ''12200160415121876738''"
proof -
  have "lines_of (stdout_of (run_events 95)) ! 93 = utoa (fibonacci 93 mod 2 ^ 64)"
    by (rule nth_lines_run_events) simp
  then show ?thesis
    by (simp only: fibonacci_93) (simp add: utoa_unsigned)
qed

section \<open>The claims of the specification\<close>

text \<open>
  Claim C1. For every requested size \<open>N \<ge> 2\<close> (given as the single argument, with
  the buffer allocated) the run completes, and for every \<open>i\<close> with \<open>2 \<le> i \<le> N - 1\<close>:
  lines \<open>i\<close>, \<open>i - 1\<close> and \<open>i - 2\<close> of standard output (counted from 0) are the
  decimal numerals of the values stored at these indices, the value stored at index
  \<open>i\<close> is the 64-bit sum of the two stored before it, and line \<open>i\<close> is the decimal
  numeral of the sum, modulo \<open>2 ^ 64\<close>, of the numbers on lines \<open>i - 1\<close> and \<open>i - 2\<close>.
\<close>

theorem line_recurrence:
  assumes "atoi arg = Inr m" and "2 \<le> sint m" and "8 * nat (sint m) \<le> avail"
    and "2 \<le> i" and "int i < sint m"
  shows "\<exists>r. main avail [prog, arg] = Inr r \<and>
             i < length (lines_of (stdout_of (events r))) \<and>
             lines_of (stdout_of (events r)) ! i =
               utoa (unat (snd (stores_of (events r) ! i))) \<and>
             lines_of (stdout_of (events r)) ! (i - 1) =
               utoa (unat (snd (stores_of (events r) ! (i - 1)))) \<and>
             lines_of (stdout_of (events r)) ! (i - 2) =
               utoa (unat (snd (stores_of (events r) ! (i - 2)))) \<and>
             stores_of (events r) ! i =
               (i, snd (stores_of (events r) ! (i - 1)) + snd (stores_of (events r) ! (i - 2))) \<and>
             lines_of (stdout_of (events r)) ! i =
               utoa ((atou (lines_of (stdout_of (events r)) ! (i - 1)) +
                      atou (lines_of (stdout_of (events r)) ! (i - 2))) mod 2 ^ 64) \<and>
             atou (lines_of (stdout_of (events r)) ! i) =
               (atou (lines_of (stdout_of (events r)) ! (i - 1)) +
                atou (lines_of (stdout_of (events r)) ! (i - 2))) mod 2 ^ 64"
proof -
  let ?n = "nat (sint m)"
  let ?r = "\<lparr>events = run_events ?n, status = 0\<rparr>"
  let ?ls = "lines_of (stdout_of (run_events ?n))"
  let ?st = "stores_of (run_events ?n)"
  have n: "2 \<le> ?n" using assms(2) by simp
  have i: "i < ?n" and i1: "i - 1 < ?n" and i2: "i - 2 < ?n"
    using assms(5) by simp_all
  have run: "main avail [prog, arg] = Inr ?r"
    by (rule main_run [OF assms(1,2,3)])
  have l0: "?ls ! i = utoa (fibonacci i mod 2 ^ 64)"
    and l1: "?ls ! (i - 1) = utoa (fibonacci (i - 1) mod 2 ^ 64)"
    and l2: "?ls ! (i - 2) = utoa (fibonacci (i - 2) mod 2 ^ 64)"
    using i i1 i2 by (simp_all only: nth_lines_run_events)
  have s0: "?st ! i = (i, fib_word i)"
    and s1: "?st ! (i - 1) = (i - 1, fib_word (i - 1))"
    and s2: "?st ! (i - 2) = (i - 2, fib_word (i - 2))"
    using n i i1 i2 by (simp_all only: nth_stores_run_events)
  have rec: "fibonacci i mod 2 ^ 64 =
        (fibonacci (i - 1) mod 2 ^ 64 + fibonacci (i - 2) mod 2 ^ 64) mod 2 ^ 64"
    by (simp only: fibonacci_rec [OF assms(4)] mod_add_eq)
  have c1: "i < length ?ls"
    using i by (simp only: length_lines_run_events)
  have c2: "?ls ! i = utoa (unat (snd (?st ! i)))"
    by (rule line_is_store [OF n i])
  have c3: "?ls ! (i - 1) = utoa (unat (snd (?st ! (i - 1))))"
    by (rule line_is_store [OF n i1])
  have c4: "?ls ! (i - 2) = utoa (unat (snd (?st ! (i - 2))))"
    by (rule line_is_store [OF n i2])
  have c5: "?st ! i = (i, snd (?st ! (i - 1)) + snd (?st ! (i - 2)))"
    by (simp only: s0 s1 s2 snd_conv fib_word_rec [OF assms(4)])
  have c6: "?ls ! i = utoa ((atou (?ls ! (i - 1)) + atou (?ls ! (i - 2))) mod 2 ^ 64)"
    by (simp only: l0 l1 l2 atou_utoa rec)
  have c7: "atou (?ls ! i) = (atou (?ls ! (i - 1)) + atou (?ls ! (i - 2))) mod 2 ^ 64"
    by (simp only: l0 l1 l2 atou_utoa rec)
  show ?thesis
    using c1 c2 c3 c4 c5 c6 c7
    by (intro exI [of _ ?r]) (simp only: run outcome.simps simp_thms)
qed

text \<open>The recurrence at \<open>N = 5\<close>, \<open>i = 4\<close>: the lines are \<open>1\<close>, \<open>2\<close> and \<open>3\<close>.\<close>

theorem line_recurrence_witness:
  "atoi ''5'' = Inr 5 \<and> 2 \<le> sint (5 :: c_int) \<and> 8 * nat (sint (5 :: c_int)) \<le> 1024 \<and>
   (2 :: nat) \<le> 4 \<and> int 4 < sint (5 :: c_int) \<and>
   (\<exists>r. main 1024 [''fibonacci'', ''5''] = Inr r \<and>
        lines_of (stdout_of (events r)) ! 4 = ''3'' \<and>
        lines_of (stdout_of (events r)) ! (4 - 1) = ''2'' \<and>
        lines_of (stdout_of (events r)) ! (4 - 2) = ''1'' \<and>
        lines_of (stdout_of (events r)) ! 4 =
          utoa ((atou (lines_of (stdout_of (events r)) ! (4 - 1)) +
                 atou (lines_of (stdout_of (events r)) ! (4 - 2))) mod 2 ^ 64) \<and>
        stores_of (events r) ! 4 =
          (4, snd (stores_of (events r) ! (4 - 1)) + snd (stores_of (events r) ! (4 - 2))))"
proof -
  have b: "2 \<le> sint (5 :: c_int)" by simp
  have c: "8 * nat (sint (5 :: c_int)) \<le> 1024" by simp
  have d: "(2 :: nat) \<le> 4" by simp
  have e: "int 4 < sint (5 :: c_int)" by simp
  from line_recurrence [OF atoi_5 b c d e, of "''fibonacci''"]
  obtain r where r: "main 1024 [''fibonacci'', ''5''] = Inr r"
    and l: "lines_of (stdout_of (events r)) ! 4 =
          utoa ((atou (lines_of (stdout_of (events r)) ! (4 - 1)) +
                 atou (lines_of (stdout_of (events r)) ! (4 - 2))) mod 2 ^ 64)"
    and s: "stores_of (events r) ! 4 =
          (4, snd (stores_of (events r) ! (4 - 1)) + snd (stores_of (events r) ! (4 - 2)))"
    by blast
  have ev: "events r = run_events 5"
    using r main_at_5 by auto
  have v: "lines_of (stdout_of (events r)) ! 4 = ''3''"
    "lines_of (stdout_of (events r)) ! (4 - 1) = ''2''"
    "lines_of (stdout_of (events r)) ! (4 - 2) = ''1''"
    unfolding ev using lines_at_5 by simp_all
  have "\<exists>r. main 1024 [''fibonacci'', ''5''] = Inr r \<and>
        lines_of (stdout_of (events r)) ! 4 = ''3'' \<and>
        lines_of (stdout_of (events r)) ! (4 - 1) = ''2'' \<and>
        lines_of (stdout_of (events r)) ! (4 - 2) = ''1'' \<and>
        lines_of (stdout_of (events r)) ! 4 =
          utoa ((atou (lines_of (stdout_of (events r)) ! (4 - 1)) +
                 atou (lines_of (stdout_of (events r)) ! (4 - 2))) mod 2 ^ 64) \<and>
        stores_of (events r) ! 4 =
          (4, snd (stores_of (events r) ! (4 - 1)) + snd (stores_of (events r) ! (4 - 2)))"
    by (intro exI [of _ r] conjI r v l s)
  then show ?thesis
    by (intro conjI atoi_5 b c d e)
qed

text \<open>
  Claim C2. For every \<open>N \<ge> 2\<close> the first line of standard output is \<open>0\<close> and the
  second line is \<open>1\<close>, the two seed values.
\<close>

theorem seed_lines:
  assumes "atoi arg = Inr m" and "2 \<le> sint m" and "8 * nat (sint m) \<le> avail"
  shows "\<exists>r. main avail [prog, arg] = Inr r \<and>
             lines_of (stdout_of (events r)) ! 0 = ''0'' \<and>
             lines_of (stdout_of (events r)) ! 1 = ''1''"
proof -
  have n: "0 < nat (sint m)" "1 < nat (sint m)" using assms(2) by simp_all
  show ?thesis
    using n by (simp add: main_run [OF assms] lines_stdout_run_events utoa_0 utoa_1)
qed

text \<open>The seed lines at \<open>N = 5\<close>.\<close>

theorem seed_lines_witness:
  "atoi ''5'' = Inr 5 \<and> 2 \<le> sint (5 :: c_int) \<and> 8 * nat (sint (5 :: c_int)) \<le> 1024 \<and>
   (\<exists>r. main 1024 [''fibonacci'', ''5''] = Inr r \<and>
        lines_of (stdout_of (events r)) ! 0 = ''0'' \<and>
        lines_of (stdout_of (events r)) ! 1 = ''1'')"
proof -
  have b: "2 \<le> sint (5 :: c_int)" by simp
  have c: "8 * nat (sint (5 :: c_int)) \<le> 1024" by simp
  show ?thesis
    using atoi_5 b c seed_lines [OF atoi_5 b c, of "''fibonacci''"]
    by (simp only: simp_thms)
qed

text \<open>
  Claim C3. For every \<open>N \<ge> 2\<close> given as the single argument, standard output consists
  of exactly \<open>N\<close> lines; every line is a non-empty string of decimal digits and nothing
  else, and every line ends with a newline.
\<close>

theorem stdout_line_count:
  assumes "atoi arg = Inr m" and "2 \<le> sint m" and "8 * nat (sint m) \<le> avail"
  shows "\<exists>r. main avail [prog, arg] = Inr r \<and>
             length (lines_of (stdout_of (events r))) = nat (sint m) \<and>
             stdout_of (events r) =
               concat (map (\<lambda>l. l @ [newline]) (lines_of (stdout_of (events r)))) \<and>
             (\<forall>l\<in>set (lines_of (stdout_of (events r))).
                l \<noteq> [] \<and> (\<forall>c\<in>set l. isdigit c))"
proof -
  let ?r = "\<lparr>events = run_events (nat (sint m)), status = 0\<rparr>"
  let ?ls = "map (\<lambda>j. utoa (fibonacci j mod 2 ^ 64)) [0..<nat (sint m)]"
  have run: "main avail [prog, arg] = Inr ?r"
    by (rule main_run [OF assms])
  have ls: "lines_of (stdout_of (events ?r)) = ?ls"
    by (simp add: lines_stdout_run_events)
  have len: "length ?ls = nat (sint m)"
    by simp
  have out: "stdout_of (events ?r) = concat (map (\<lambda>l. l @ [newline]) ?ls)"
    by (simp add: stdout_run_events value_line_def [abs_def] comp_def)
  have dig: "\<forall>l\<in>set ?ls. l \<noteq> [] \<and> (\<forall>c\<in>set l. isdigit c)"
    using utoa_nonempty utoa_digits by auto
  show ?thesis
  proof (intro exI conjI)
    show "main avail [prog, arg] = Inr ?r"
      by (rule run)
    show "length (lines_of (stdout_of (events ?r))) = nat (sint m)"
      unfolding ls by (rule len)
    show "stdout_of (events ?r) =
          concat (map (\<lambda>l. l @ [newline]) (lines_of (stdout_of (events ?r))))"
      unfolding ls by (rule out)
    show "\<forall>l\<in>set (lines_of (stdout_of (events ?r))). l \<noteq> [] \<and> (\<forall>c\<in>set l. isdigit c)"
      unfolding ls by (rule dig)
  qed
qed

text \<open>The line count at \<open>N = 5\<close>.\<close>

theorem stdout_line_count_witness:
  "atoi ''5'' = Inr 5 \<and> 2 \<le> sint (5 :: c_int) \<and> 8 * nat (sint (5 :: c_int)) \<le> 1024 \<and>
   (\<exists>r. main 1024 [''fibonacci'', ''5''] = Inr r \<and>
        length (lines_of (stdout_of (events r))) = nat (sint (5 :: c_int)) \<and>
        stdout_of (events r) =
          concat (map (\<lambda>l. l @ [newline]) (lines_of (stdout_of (events r)))) \<and>
        (\<forall>l\<in>set (lines_of (stdout_of (events r))).
           l \<noteq> [] \<and> (\<forall>c\<in>set l. isdigit c)))"
proof -
  have b: "2 \<le> sint (5 :: c_int)" by simp
  have c: "8 * nat (sint (5 :: c_int)) \<le> 1024" by simp
  show ?thesis
    using atoi_5 b c stdout_line_count [OF atoi_5 b c, of "''fibonacci''"]
    by (simp only: simp_thms)
qed

text \<open>
  Claim C4. For every \<open>N \<ge> 2\<close> standard error consists of exactly \<open>N - 2\<close> lines
  \<open>Calculating index i\<close>, one for each \<open>i\<close> from 2 to \<open>N - 1\<close> in increasing order, and
  in the trace of the run the line for index \<open>i\<close> comes immediately before the store
  into element \<open>i\<close>.
\<close>

theorem progress_lines:
  assumes "atoi arg = Inr m" and "2 \<le> sint m" and "8 * nat (sint m) \<le> avail"
  shows "\<exists>r. main avail [prog, arg] = Inr r \<and>
             lines_of (stderr_of (events r)) =
               map (\<lambda>i. ''Calculating index '' @ utoa i) [2..<nat (sint m)] \<and>
             length (lines_of (stderr_of (events r))) = nat (sint m) - 2 \<and>
             stderr_of (events r) =
               concat (map (\<lambda>l. l @ [newline]) (lines_of (stderr_of (events r)))) \<and>
             events r =
               [Store 0 0, Store 1 1] @
               concat (map (\<lambda>i. [Stderr (''Calculating index '' @ utoa i @ [newline]),
                                  Store i (fib_word i)]) [2..<nat (sint m)]) @
               print_events 0 (nat (sint m))"
proof -
  let ?n = "nat (sint m)"
  let ?r = "\<lparr>events = run_events ?n, status = 0\<rparr>"
  let ?ls = "map (\<lambda>i. ''Calculating index '' @ utoa i) [2..<?n]"
  have run: "main avail [prog, arg] = Inr ?r"
    by (rule main_run [OF assms])
  have ls: "lines_of (stderr_of (events ?r)) = ?ls"
    by (simp add: lines_stderr_run_events)
  have err: "stderr_of (events ?r) = concat (map (\<lambda>l. l @ [newline]) ?ls)"
    by (simp add: stderr_run_events progress_line_def [abs_def] comp_def)
  have ev: "events ?r =
        [Store 0 0, Store 1 1] @
        concat (map (\<lambda>i. [Stderr (''Calculating index '' @ utoa i @ [newline]),
                           Store i (fib_word i)]) [2..<?n]) @
        print_events 0 ?n"
    by (simp add: run_events_def fill_events_def progress_line_def [abs_def])
  show ?thesis
  proof (intro exI conjI)
    show "main avail [prog, arg] = Inr ?r"
      by (rule run)
    show "lines_of (stderr_of (events ?r)) = ?ls"
      by (rule ls)
    show "length (lines_of (stderr_of (events ?r))) = ?n - 2"
      unfolding ls by simp
    show "stderr_of (events ?r) =
          concat (map (\<lambda>l. l @ [newline]) (lines_of (stderr_of (events ?r))))"
      unfolding ls by (rule err)
    show "events ?r =
        [Store 0 0, Store 1 1] @
        concat (map (\<lambda>i. [Stderr (''Calculating index '' @ utoa i @ [newline]),
                           Store i (fib_word i)]) [2..<?n]) @
        print_events 0 ?n"
      by (rule ev)
  qed
qed

text \<open>The progress lines at \<open>N = 5\<close>.\<close>

theorem progress_lines_witness:
  "atoi ''5'' = Inr 5 \<and> 2 \<le> sint (5 :: c_int) \<and> 8 * nat (sint (5 :: c_int)) \<le> 1024 \<and>
   (\<exists>r. main 1024 [''fibonacci'', ''5''] = Inr r \<and>
        lines_of (stderr_of (events r)) =
          map (\<lambda>i. ''Calculating index '' @ utoa i) [2..<nat (sint (5 :: c_int))] \<and>
        length (lines_of (stderr_of (events r))) = nat (sint (5 :: c_int)) - 2 \<and>
        stderr_of (events r) =
          concat (map (\<lambda>l. l @ [newline]) (lines_of (stderr_of (events r)))) \<and>
        events r =
          [Store 0 0, Store 1 1] @
          concat (map (\<lambda>i. [Stderr (''Calculating index '' @ utoa i @ [newline]),
                             Store i (fib_word i)]) [2..<nat (sint (5 :: c_int))]) @
          print_events 0 (nat (sint (5 :: c_int))))"
proof -
  have b: "2 \<le> sint (5 :: c_int)" by simp
  have c: "8 * nat (sint (5 :: c_int)) \<le> 1024" by simp
  show ?thesis
    using atoi_5 b c progress_lines [OF atoi_5 b c, of "''fibonacci''"]
    by (simp only: simp_thms)
qed

text \<open>
  Claim C5. When the program is started with no argument or with more than one, it
  writes the single line \<open>Usage: <program-name> <index>\<close> to standard error, writes
  nothing to standard output and stores nothing: the usage line is the only event of
  the run.
\<close>

theorem usage_error:
  assumes "length argv = 1 \<or> 2 < length argv"
  shows "\<exists>r. main avail argv = Inr r \<and>
             stderr_of (events r) = ''Usage: '' @ argv ! 0 @ '' <index>'' @ [newline] \<and>
             stdout_of (events r) = [] \<and>
             stores_of (events r) = [] \<and>
             length (events r) = 1"
proof -
  from assms obtain prog rest where argv: "argv = prog # rest"
    by (cases argv) auto
  have "length (prog # rest) \<noteq> 2" using assms argv by auto
  then have "main avail argv = Inr \<lparr>events = [Stderr (usage prog)], status = 0\<rparr>"
    unfolding argv by (rule main_usage)
  then show ?thesis by (simp add: argv usage_def)
qed

text \<open>The usage line for a start without arguments.\<close>

theorem usage_error_witness:
  "(length [''fibonacci''] = 1 \<or> 2 < length [''fibonacci'']) \<and>
   (\<exists>r. main 1024 [''fibonacci''] = Inr r \<and>
        stderr_of (events r) = ''Usage: '' @ [''fibonacci''] ! 0 @ '' <index>'' @ [newline] \<and>
        stdout_of (events r) = [] \<and>
        stores_of (events r) = [] \<and>
        length (events r) = 1)"
proof -
  have a: "length [''fibonacci''] = 1 \<or> 2 < length [''fibonacci'']" by simp
  show ?thesis
    using a usage_error [OF a, of 1024] by (simp only: simp_thms)
qed

text \<open>
  Claim C6. The seed stores at indices 0 and 1 are made whatever the requested size
  \<open>N\<close> is. With the buffer allocated, the run is free of out-of-bounds accesses exactly
  when \<open>N \<ge> 2\<close>: for \<open>N = 0\<close> the store at index 0 is out of bounds, for \<open>N = 1\<close> the
  store at index 1 is, and in a run that completes every store is at an index below
  \<open>N\<close>. (A load outside the buffer ends the run with a fault as well, so a completed
  run has none.)
\<close>

theorem seed_writes_bounds:
  assumes "atoi arg = Inr m"
    and "malloc avail (unat (scast m * sizeof_long)) = Some b"
  shows "((\<exists>r. main avail [prog, arg] = Inr r) \<longleftrightarrow> 2 \<le> sint m) \<and>
         (sint m = 0 \<longrightarrow> main avail [prog, arg] = Inl (OutOfBoundsWrite 0)) \<and>
         (sint m = 1 \<longrightarrow> main avail [prog, arg] = Inl (OutOfBoundsWrite 1)) \<and>
         (\<forall>r k v. main avail [prog, arg] = Inr r \<and> (k, v) \<in> set (stores_of (events r))
                   \<longrightarrow> int k < sint m)"
proof -
  have ok: "0 \<le> sint m" "8 * nat (sint m) \<le> avail"
    using assms(2) malloc_Some_iff [of avail m] by auto
  consider "sint m = 0" | "sint m = 1" | "2 \<le> sint m"
    using ok(1) by linarith
  then show ?thesis
  proof cases
    case 1
    then show ?thesis by (simp add: main_zero [OF assms(1)])
  next
    case 2
    then have "8 \<le> avail" using ok(2) by simp
    with 2 show ?thesis by (simp add: main_one [OF assms(1)])
  next
    case 3
    have n: "2 \<le> nat (sint m)" using 3 by simp
    have "int k < sint m" if "(k, v) \<in> set (stores_of (run_events (nat (sint m))))" for k v
      using stores_in_range [OF n that] by simp
    then show ?thesis
      using 3 by (auto simp: main_run [OF assms(1) 3 ok(2)])
  qed
qed

text \<open>The three cases at \<open>N = 0\<close>, \<open>N = 1\<close> and \<open>N = 2\<close>.\<close>

theorem seed_writes_bounds_witness:
  "atoi ''0'' = Inr 0 \<and>
   malloc 1024 (unat (scast (0 :: c_int) * sizeof_long)) = Some \<lparr>nelem = 0, cells = Map.empty\<rparr> \<and>
   main 1024 [''fibonacci'', ''0''] = Inl (OutOfBoundsWrite 0) \<and>
   atoi ''1'' = Inr 1 \<and>
   malloc 1024 (unat (scast (1 :: c_int) * sizeof_long)) = Some \<lparr>nelem = 1, cells = Map.empty\<rparr> \<and>
   main 1024 [''fibonacci'', ''1''] = Inl (OutOfBoundsWrite 1) \<and>
   atoi ''2'' = Inr 2 \<and>
   malloc 1024 (unat (scast (2 :: c_int) * sizeof_long)) = Some \<lparr>nelem = 2, cells = Map.empty\<rparr> \<and>
   (\<exists>r. main 1024 [''fibonacci'', ''2''] = Inr r \<and>
        (\<forall>k v. (k, v) \<in> set (stores_of (events r)) \<longrightarrow> int k < 2))"
proof -
  note z0 = seed_writes_bounds [OF atoi_0 malloc_0, of "''fibonacci''"]
  note o0 = seed_writes_bounds [OF atoi_1 malloc_1, of "''fibonacci''"]
  note t0 = seed_writes_bounds [OF atoi_2 malloc_2, of "''fibonacci''"]
  have s0: "sint (0 :: c_int) = 0" and s1: "sint (1 :: c_int) = 1"
    and s2: "2 \<le> sint (2 :: c_int)" and s2': "sint (2 :: c_int) = 2"
    by simp_all
  have z: "main 1024 [''fibonacci'', ''0''] = Inl (OutOfBoundsWrite 0)"
    by (rule mp [OF conjunct1 [OF conjunct2 [OF z0]] s0])
  have o: "main 1024 [''fibonacci'', ''1''] = Inl (OutOfBoundsWrite 1)"
    by (rule mp [OF conjunct1 [OF conjunct2 [OF conjunct2 [OF o0]]] s1])
  have "\<exists>r. main 1024 [''fibonacci'', ''2''] = Inr r"
    by (rule iffD2 [OF conjunct1 [OF t0] s2])
  then obtain r where r: "main 1024 [''fibonacci'', ''2''] = Inr r" ..
  have "\<forall>r k v. main 1024 [''fibonacci'', ''2''] = Inr r \<and>
          (k, v) \<in> set (stores_of (events r)) \<longrightarrow> int k < 2"
    using conjunct2 [OF conjunct2 [OF conjunct2 [OF t0]]] unfolding s2' .
  with r have "\<forall>k v. (k, v) \<in> set (stores_of (events r)) \<longrightarrow> int k < 2"
    by blast
  with r have t: "\<exists>r. main 1024 [''fibonacci'', ''2''] = Inr r \<and>
        (\<forall>k v. (k, v) \<in> set (stores_of (events r)) \<longrightarrow> int k < 2)"
    by (intro exI [of _ r] conjI)
  show ?thesis
    by (intro conjI atoi_0 malloc_0 z atoi_1 malloc_1 o atoi_2 malloc_2 t)
qed

text \<open>
  Claim C7 says that every run ends with exit status 0. The run with the argument
  \<open>-1\<close> does not: the size of the request wraps around to \<open>2 ^ 64 - 8\<close> bytes, no
  allocator grants it, and the first seed store goes through the null pointer.
\<close>

theorem exit_status_counterexample:
  "main 1024 [''fibonacci'', ''-1''] = Inl NullDeref"
  by (rule main_null [OF atoi_minus_1], rule malloc_neg) simp

text \<open>
  Claim C7, amended. On both branches the program ends with exit status 0 whenever it
  reaches its \<open>return\<close>: with no argument or more than one (the usage branch), and
  with one argument that reads as \<open>N \<ge> 2\<close> and whose buffer is allocated.
\<close>

theorem exit_status_zero:
  assumes "length argv = 1 \<or> 2 < length argv \<or>
           (length argv = 2 \<and>
            (\<exists>m. atoi (argv ! 1) = Inr m \<and> 2 \<le> sint m \<and> 8 * nat (sint m) \<le> avail))"
  shows "\<exists>r. main avail argv = Inr r \<and> status r = 0"
  using assms main_completes_iff [of avail argv] by blast

text \<open>The exit status on both branches: a start without arguments, and \<open>N = 5\<close>.\<close>

theorem exit_status_zero_witness:
  "(length [''fibonacci''] = 1 \<or> 2 < length [''fibonacci''] \<or>
    (length [''fibonacci''] = 2 \<and>
     (\<exists>m. atoi ([''fibonacci''] ! 1) = Inr m \<and> 2 \<le> sint m \<and> 8 * nat (sint m) \<le> 1024))) \<and>
   (\<exists>r. main 1024 [''fibonacci''] = Inr r \<and> status r = 0) \<and>
   (length [''fibonacci'', ''5''] = 1 \<or> 2 < length [''fibonacci'', ''5''] \<or>
    (length [''fibonacci'', ''5''] = 2 \<and>
     (\<exists>m. atoi ([''fibonacci'', ''5''] ! 1) = Inr m \<and> 2 \<le> sint m \<and>
          8 * nat (sint m) \<le> 1024))) \<and>
   (\<exists>r. main 1024 [''fibonacci'', ''5''] = Inr r \<and> status r = 0)"
proof -
  have a: "length [''fibonacci''] = 1 \<or> 2 < length [''fibonacci''] \<or>
    (length [''fibonacci''] = 2 \<and>
     (\<exists>m. atoi ([''fibonacci''] ! 1) = Inr m \<and> 2 \<le> sint m \<and> 8 * nat (sint m) \<le> 1024))"
    by simp
  have "atoi ([''fibonacci'', ''5''] ! 1) = Inr 5 \<and> 2 \<le> sint (5 :: c_int) \<and>
        8 * nat (sint (5 :: c_int)) \<le> 1024"
    using atoi_5 by simp
  then have "\<exists>m. atoi ([''fibonacci'', ''5''] ! 1) = Inr m \<and> 2 \<le> sint m \<and>
        8 * nat (sint m) \<le> 1024"
    by (rule exI)
  then have b: "length [''fibonacci'', ''5''] = 1 \<or> 2 < length [''fibonacci'', ''5''] \<or>
    (length [''fibonacci'', ''5''] = 2 \<and>
     (\<exists>m. atoi ([''fibonacci'', ''5''] ! 1) = Inr m \<and> 2 \<le> sint m \<and>
          8 * nat (sint m) \<le> 1024))"
    by simp
  show ?thesis
    by (intro conjI a b exit_status_zero [OF a] exit_status_zero [OF b])
qed

text \<open>
  Claim C8. No overflow is detected: for every \<open>N \<ge> 2\<close> the run completes, the value
  stored at index \<open>k\<close> is the \<open>k\<close>-th Fibonacci number as a 64-bit word, that is, modulo
  \<open>2 ^ 64\<close>, and the number printed on line \<open>k\<close> is that residue, also where the true
  Fibonacci number no longer fits 64 bits.
\<close>

theorem wrapping_sums:
  assumes "atoi arg = Inr m" and "2 \<le> sint m" and "8 * nat (sint m) \<le> avail"
  shows "\<exists>r. main avail [prog, arg] = Inr r \<and>
             stores_of (events r) =
               map (\<lambda>k. (k, word_of_nat (fibonacci k))) [0..<nat (sint m)] \<and>
             (\<forall>k<nat (sint m).
                unat (snd (stores_of (events r) ! k)) = fibonacci k mod 2 ^ 64 \<and>
                atou (lines_of (stdout_of (events r)) ! k) = fibonacci k mod 2 ^ 64)"
proof -
  let ?n = "nat (sint m)"
  have n: "2 \<le> ?n" using assms(2) by simp
  have st: "stores_of (run_events ?n) = map (\<lambda>k. (k, word_of_nat (fibonacci k))) [0..<?n]"
    using stores_run_events [OF n] by (simp add: fib_word_def [abs_def])
  have "unat (snd (stores_of (run_events ?n) ! k)) = fibonacci k mod 2 ^ 64 \<and>
        atou (lines_of (stdout_of (run_events ?n)) ! k) = fibonacci k mod 2 ^ 64"
    if "k < ?n" for k
    using that by (simp add: st lines_stdout_run_events atou_utoa unat_of_nat)
  then show ?thesis
    using st by (simp add: main_run [OF assms])
qed

text \<open>
  The stored values at \<open>N = 95\<close>, where the Fibonacci number at index 94 exceeds 64 bits.
\<close>

theorem wrapping_sums_witness:
  "atoi ''95'' = Inr 95 \<and> 2 \<le> sint (95 :: c_int) \<and> 8 * nat (sint (95 :: c_int)) \<le> 1024 \<and>
   (\<exists>r. main 1024 [''fibonacci'', ''95''] = Inr r \<and>
        stores_of (events r) =
          map (\<lambda>k. (k, word_of_nat (fibonacci k))) [0..<nat (sint (95 :: c_int))] \<and>
        (\<forall>k<nat (sint (95 :: c_int)).
           unat (snd (stores_of (events r) ! k)) = fibonacci k mod 2 ^ 64 \<and>
           atou (lines_of (stdout_of (events r)) ! k) = fibonacci k mod 2 ^ 64)) \<and>
   2 ^ 64 \<le> fibonacci 94"
proof -
  have b: "2 \<le> sint (95 :: c_int)" by simp
  have c: "8 * nat (sint (95 :: c_int)) \<le> 1024" by simp
  have d: "(2 :: nat) ^ 64 \<le> fibonacci 94"
    by (simp only: fibonacci_94) simp
  show ?thesis
    by (intro conjI atoi_95 b c d wrapping_sums [OF atoi_95 b c])
qed

text \<open>
  Claim C9. Every stored value is printed with the unsigned conversion: a run for
  \<open>N \<ge> 2\<close> makes \<open>N\<close> stores and prints \<open>N\<close> lines, line \<open>k\<close> is the decimal numeral
  of the unsigned value of the \<open>k\<close>-th stored word, it contains no minus sign, and the
  number it denotes is the residue modulo \<open>2 ^ 64\<close> of the signed value of that word,
  which is non-negative also when the signed value is negative.
\<close>

theorem unsigned_lines:
  assumes "atoi arg = Inr m" and "2 \<le> sint m" and "8 * nat (sint m) \<le> avail"
  shows "\<exists>r. main avail [prog, arg] = Inr r \<and>
             length (stores_of (events r)) = nat (sint m) \<and>
             length (lines_of (stdout_of (events r))) = nat (sint m) \<and>
             (\<forall>k<nat (sint m).
                lines_of (stdout_of (events r)) ! k =
                  utoa (unat (snd (stores_of (events r) ! k))) \<and>
                CHR ''-'' \<notin> set (lines_of (stdout_of (events r)) ! k) \<and>
                int (atou (lines_of (stdout_of (events r)) ! k)) =
                  sint (snd (stores_of (events r) ! k)) mod 2 ^ 64)"
proof -
  let ?n = "nat (sint m)"
  let ?r = "\<lparr>events = run_events ?n, status = 0\<rparr>"
  let ?ls = "lines_of (stdout_of (run_events ?n))"
  let ?st = "stores_of (run_events ?n)"
  have n: "2 \<le> ?n" using assms(2) by simp
  have run: "main avail [prog, arg] = Inr ?r"
    by (rule main_run [OF assms])
  have c1: "length ?st = ?n"
    by (rule length_stores_run_events [OF n])
  have c2: "length ?ls = ?n"
    by (rule length_lines_run_events)
  have c3: "\<forall>k<?n. ?ls ! k = utoa (unat (snd (?st ! k))) \<and>
                CHR ''-'' \<notin> set (?ls ! k) \<and>
                int (atou (?ls ! k)) = sint (snd (?st ! k)) mod 2 ^ 64"
  proof (intro allI impI)
    fix k assume k: "k < ?n"
    have l: "?ls ! k = utoa (unat (snd (?st ! k)))"
      by (rule line_is_store [OF n k])
    show "?ls ! k = utoa (unat (snd (?st ! k))) \<and>
                CHR ''-'' \<notin> set (?ls ! k) \<and>
                int (atou (?ls ! k)) = sint (snd (?st ! k)) mod 2 ^ 64"
      unfolding l using utoa_no_minus atou_utoa_unat by simp
  qed
  show ?thesis
    using c1 c2 c3
    by (intro exI [of _ ?r]) (simp only: run outcome.simps simp_thms)
qed

text \<open>
  The run at \<open>N = 95\<close>: the word stored at index 93 is negative as a signed number,
  and line 93 is \<open>12200160415121876738\<close>.
\<close>

theorem unsigned_lines_witness:
  "atoi ''95'' = Inr 95 \<and> 2 \<le> sint (95 :: c_int) \<and> 8 * nat (sint (95 :: c_int)) \<le> 1024 \<and>
   (\<exists>r. main 1024 [''fibonacci'', ''95''] = Inr r \<and>
        length (stores_of (events r)) = nat (sint (95 :: c_int)) \<and>
        length (lines_of (stdout_of (events r))) = nat (sint (95 :: c_int)) \<and>
        sint (snd (stores_of (events r) ! 93)) < 0 \<and>
        lines_of (stdout_of (events r)) ! 93 = ''12200160415121876738'' \<and>
        lines_of (stdout_of (events r)) ! 93 = utoa (unat (snd (stores_of (events r) ! 93))) \<and>
        CHR ''-'' \<notin> set (lines_of (stdout_of (events r)) ! 93) \<and>
        int (atou (lines_of (stdout_of (events r)) ! 93)) =
          sint (snd (stores_of (events r) ! 93)) mod 2 ^ 64)"
proof -
  have b: "2 \<le> sint (95 :: c_int)" by simp
  have c: "8 * nat (sint (95 :: c_int)) \<le> 1024" by simp
  from unsigned_lines [OF atoi_95 b c, of "''fibonacci''"]
  obtain r where r: "main 1024 [''fibonacci'', ''95''] = Inr r"
    and n1: "length (stores_of (events r)) = nat (sint (95 :: c_int))"
    and n2: "length (lines_of (stdout_of (events r))) = nat (sint (95 :: c_int))"
    and a: "\<forall>k<nat (sint (95 :: c_int)).
                lines_of (stdout_of (events r)) ! k =
                  utoa (unat (snd (stores_of (events r) ! k))) \<and>
                CHR ''-'' \<notin> set (lines_of (stdout_of (events r)) ! k) \<and>
                int (atou (lines_of (stdout_of (events r)) ! k)) =
                  sint (snd (stores_of (events r) ! k)) mod 2 ^ 64"
    by blast
  have k: "93 < nat (sint (95 :: c_int))" by simp
  note at = a [rule_format, OF k]
  have ev: "events r = run_events 95"
    using r main_at_95 by auto
  have neg: "sint (snd (stores_of (events r) ! 93)) < 0"
    unfolding ev by (simp only: store_93 snd_conv fib_word_93_negative)
  have ln: "lines_of (stdout_of (events r)) ! 93 = ''12200160415121876738''"
    unfolding ev by (rule line_93)
  have "\<exists>r. main 1024 [''fibonacci'', ''95''] = Inr r \<and>
        length (stores_of (events r)) = nat (sint (95 :: c_int)) \<and>
        length (lines_of (stdout_of (events r))) = nat (sint (95 :: c_int)) \<and>
        sint (snd (stores_of (events r) ! 93)) < 0 \<and>
        lines_of (stdout_of (events r)) ! 93 = ''12200160415121876738'' \<and>
        lines_of (stdout_of (events r)) ! 93 = utoa (unat (snd (stores_of (events r) ! 93))) \<and>
        CHR ''-'' \<notin> set (lines_of (stdout_of (events r)) ! 93) \<and>
        int (atou (lines_of (stdout_of (events r)) ! 93)) =
          sint (snd (stores_of (events r) ! 93)) mod 2 ^ 64"
    by (intro exI [of _ r] conjI r n1 n2 neg ln conjunct1 [OF at]
        conjunct1 [OF conjunct2 [OF at]] conjunct2 [OF conjunct2 [OF at]])
  then show ?thesis
    by (intro conjI atoi_95 b c)
qed

end
